theory Spec2Isabelle
  imports Main "HOL-Library.Multiset"
begin

section \<open>Values, exceptions and observable actions\<close>

text \<open>
  The exceptions of the program are the instances of Python's \<^verbatim>\<open>Exception\<close>, the class
  that both \<^verbatim>\<open>except Exception as e\<close> clauses of \<^verbatim>\<open>demo.py\<close> catch. The program itself
  raises only \<^verbatim>\<open>ValueError("Unlucky number!")\<close>; an operation handed to \<^verbatim>\<open>retry\<close> may
  raise any other one. \<open>str_exn\<close> is \<^verbatim>\<open>str(e)\<close>, the text the handlers put in the log.
\<close>

datatype exn = ValueError string | OtherException string

fun str_exn :: "exn \<Rightarrow> string" where
  "str_exn (ValueError m) = m"
| "str_exn (OtherException m) = m"

text \<open>
  The decimal text of an integer: \<open>str_nat\<close> gives the digits, \<open>decimal\<close> puts a minus
  sign before them below zero.
\<close>

fun str_nat :: "nat \<Rightarrow> string" where
  "str_nat n =
     (if n < 10 then [char_of (48 + n)]
      else str_nat (n div 10) @ [char_of (48 + n mod 10)])"

declare str_nat.simps [simp del]

definition decimal :: "int \<Rightarrow> string" where
  "decimal i = (if i < 0 then CHR ''-'' # str_nat (nat (- i)) else str_nat (nat i))"

text \<open>
  \<^verbatim>\<open>str(n)\<close>, and \<^verbatim>\<open>{n}\<close> in an f-string, for a Python integer. CPython refuses to convert
  an integer of more than \<^verbatim>\<open>sys.get_int_max_str_digits()\<close> digits, 4300 unless the limit
  has been changed (the program does not change it): the conversion raises \<^verbatim>\<open>ValueError\<close>
  with the message below. The sign is not counted.
\<close>

definition int_max_str_digits :: nat where
  "int_max_str_digits = 4300"

definition limit_error :: exn where
  "limit_error = ValueError
     ''Exceeds the limit (4300 digits) for integer string conversion; use sys.set_int_max_str_digits() to increase the limit''"

definition exceeds_limit :: "int \<Rightarrow> bool" where
  "exceeds_limit i = (int_max_str_digits < length (str_nat (nat \<bar>i\<bar>)))"

definition str_int :: "int \<Rightarrow> exn + string" where
  "str_int i = (if exceeds_limit i then Inl limit_error else Inr (decimal i))"

text \<open>
  What a piece of code does to the world outside its own frame, in program order:
  \<^item> \<open>LogCall m\<close> is one call \<^verbatim>\<open>Logger().log(m)\<close>;
  \<^item> \<open>Sleep ms\<close> is one call \<^verbatim>\<open>time.sleep\<close>, the duration in milliseconds
    (\<^verbatim>\<open>1.0\<close> is 1000, \<^verbatim>\<open>0.01\<close> is 10);
  \<^item> \<open>Append r\<close> is one call \<^verbatim>\<open>results.append(r)\<close>, where \<open>None\<close> is Python's
    \<^verbatim>\<open>None\<close>;
  \<^item> \<open>Uncaught e\<close> is the end of a thread whose function raised \<open>e\<close>: the \<^verbatim>\<open>threading\<close>
    module catches the exception and reports it on the standard error stream.
  No function of the program reads the log or the result list back, so a call is described
  by its outcome (\<open>Inl e\<close>: it raised \<open>e\<close>; \<open>Inr v\<close>: it returned \<open>v\<close>) and the list of
  actions it performed.
\<close>

datatype event = LogCall string | Sleep nat | Append "int option" | Uncaught exn

fun is_LogCall :: "event \<Rightarrow> bool" where
  "is_LogCall (LogCall m) = True"
| "is_LogCall (Sleep ms) = False"
| "is_LogCall (Append r) = False"
| "is_LogCall (Uncaught e) = False"

text \<open>
  An operation that \<^verbatim>\<open>retry\<close> wraps is any Python callable, applied to fixed arguments.
  It may have a private state of its own (a closure counting its calls, say): one
  invocation maps the state before to the outcome, the actions performed and the state
  after.
\<close>

type_synonym ('s, 'a) operation = "'s \<Rightarrow> (exn + 'a) \<times> event list \<times> 's"

section \<open>The retry decorator\<close>

text \<open>
  \<^verbatim>\<open>
  def inner(*args, **kwargs):
      for attempt in range(1, retries + 1):
          try:
              return func(*args, **kwargs)
          except Exception as e:
              Logger().log(f"Attempt {attempt} failed: {str(e)}")
              if attempt == retries:
                  raise
              time.sleep(delay)
  \<close>
  \<open>retry_for\<close> is the loop over the remaining values of \<^verbatim>\<open>range(1, retries + 1)\<close>. When the
  range is exhausted the function body ends, and Python returns \<^verbatim>\<open>None\<close>: the result
  \<open>Inr None\<close>. \<open>Inr (Some v)\<close> is the value \<open>v\<close> returned by \<^verbatim>\<open>func\<close>.

  The attempt number in the message is written in full: it is at most \<^verbatim>\<open>retries\<close>, and an
  attempt number of more than 4300 digits is reached only after more than \<open>10 ^ 4300\<close>
  invocations of the operation.
\<close>

definition attempt_failed :: "int \<Rightarrow> exn \<Rightarrow> string" where
  "attempt_failed attempt e = ''Attempt '' @ decimal attempt @ '' failed: '' @ str_exn e"

fun retry_for :: "int \<Rightarrow> nat \<Rightarrow> ('s, 'a) operation \<Rightarrow> int list \<Rightarrow> 's
    \<Rightarrow> (exn + 'a option) \<times> event list \<times> 's" where
  "retry_for retries delay func [] s = (Inr None, [], s)"
| "retry_for retries delay func (attempt # rest) s =
     (case func s of
        (Inr v, evs, s') \<Rightarrow> (Inr (Some v), evs, s')
      | (Inl e, evs, s') \<Rightarrow>
          (if attempt = retries
           then (Inl e, evs @ [LogCall (attempt_failed attempt e)], s')
           else (case retry_for retries delay func rest s' of
                   (r, evs2, s'') \<Rightarrow>
                     (r, evs @ [LogCall (attempt_failed attempt e), Sleep delay] @ evs2, s''))))"

definition inner :: "int \<Rightarrow> nat \<Rightarrow> ('s, 'a) operation \<Rightarrow> 's
    \<Rightarrow> (exn + 'a option) \<times> event list \<times> 's" where
  "inner retries delay func s = retry_for retries delay func [1..retries] s"

text \<open>
  Notions used to state what one wrapped call did. \<open>after_calls func n s\<close> is the private
  state of the operation after \<open>n\<close> invocations from \<open>s\<close>; \<open>call_outcome func s i\<close> and
  \<open>call_events func s i\<close> are the outcome and the actions of invocation number \<open>i\<close>, counted
  from 0. \<open>failed_attempts delay func s a k\<close> is what \<open>k\<close> failed attempts numbered from \<open>a\<close>
  leave behind when another attempt follows each: the actions of the operation, the
  record of the failure, the sleep. \<open>own_log_calls func s n\<close> counts the log calls that the
  first \<open>n\<close> invocations of the operation make themselves.
\<close>

fun after_calls :: "('s, 'a) operation \<Rightarrow> nat \<Rightarrow> 's \<Rightarrow> 's" where
  "after_calls func 0 s = s"
| "after_calls func (Suc n) s = after_calls func n (snd (snd (func s)))"

definition call_outcome :: "('s, 'a) operation \<Rightarrow> 's \<Rightarrow> nat \<Rightarrow> exn + 'a" where
  "call_outcome func s i = fst (func (after_calls func i s))"

definition call_events :: "('s, 'a) operation \<Rightarrow> 's \<Rightarrow> nat \<Rightarrow> event list" where
  "call_events func s i = fst (snd (func (after_calls func i s)))"

definition failed_attempts :: "nat \<Rightarrow> ('s, 'a) operation \<Rightarrow> 's \<Rightarrow> int \<Rightarrow> nat \<Rightarrow> event list" where
  "failed_attempts delay func s a k =
     concat (map (\<lambda>i. call_events func s i @
        [LogCall (attempt_failed (a + int i) (projl (call_outcome func s i))), Sleep delay]) [0..<k])"

definition own_log_calls :: "('s, 'a) operation \<Rightarrow> 's \<Rightarrow> nat \<Rightarrow> nat" where
  "own_log_calls func s n =
     sum_list (map (\<lambda>i. length (filter is_LogCall (call_events func s i))) [0..<n])"

section \<open>The data processor\<close>

text \<open>
  \<^verbatim>\<open>
  @retry(retries=2)
  def process(self, data: int) -> int:
      if data % 13 == 0:
          raise ValueError("Unlucky number!")
      time.sleep(0.01)
      Logger().log(f"Processed: {data}")
      return data**2
  \<close>
  \<open>process_func\<close> is the undecorated body; it has no state of its own. \<open>process\<close> is the
  decorated method: \<^verbatim>\<open>retries\<close> is 2 and \<^verbatim>\<open>delay\<close> keeps its default \<^verbatim>\<open>1.0\<close>. Python's
  \<^verbatim>\<open>%\<close> with a positive modulus is HOL's \<open>mod\<close> on \<open>int\<close>. The message of the log call
  is built before the call: when \<^verbatim>\<open>data\<close> has too many digits to be converted, the
  f-string raises after the sleep, and nothing is logged or returned.
\<close>

definition process_func :: "int \<Rightarrow> (unit, int) operation" where
  "process_func data s =
     (if data mod 13 = 0 then (Inl (ValueError ''Unlucky number!''), [], s)
      else (case str_int data of
              Inl e \<Rightarrow> (Inl e, [Sleep 10], s)
            | Inr text \<Rightarrow> (Inr (data ^ 2), [Sleep 10, LogCall (''Processed: '' @ text)], s)))"

definition process :: "int \<Rightarrow> (exn + int option) \<times> event list" where
  "process data = (case inner 2 1000 (process_func data) () of (r, evs, _) \<Rightarrow> (r, evs))"

text \<open>
  \<^verbatim>\<open>
  def task(val):
      try:
          res = self.process(val)
          results.append(res)
      except Exception as e:
          Logger().log(f"Failed processing {val}: {e}")
  \<close>
  The outcome of \<open>task\<close> is what its thread ends with: \<open>Inr ()\<close> when the function
  returns, \<open>Inl e\<close> if an exception left it. The handler builds its message from \<^verbatim>\<open>val\<close>
  first: when \<^verbatim>\<open>val\<close> has too many digits, the f-string raises inside the handler, nothing
  is logged, and that exception leaves \<open>task\<close>.
\<close>

definition task :: "int \<Rightarrow> (exn + unit) \<times> event list" where
  "task val =
     (case process val of
        (Inr res, evs) \<Rightarrow> (Inr (), evs @ [Append res])
      | (Inl e, evs) \<Rightarrow>
          (case str_int val of
             Inl e' \<Rightarrow> (Inl e', evs)
           | Inr text \<Rightarrow>
               (Inr (), evs @ [LogCall (''Failed processing '' @ text @ '': '' @ str_exn e)])))"

text \<open>
  The thread started with \<^verbatim>\<open>target=task, args=(val,)\<close>: the actions of \<open>task val\<close>, and the
  report of the exception when one leaves \<open>task\<close>. The exception ends there: it reaches
  neither \<^verbatim>\<open>join\<close> nor \<^verbatim>\<open>run\<close>.
\<close>

definition thread :: "int \<Rightarrow> event list" where
  "thread val = (case task val of (Inr u, evs) \<Rightarrow> evs | (Inl e, evs) \<Rightarrow> evs @ [Uncaught e])"

text \<open>An item of 4301 digits, the smallest one that cannot be converted to text.\<close>

definition huge_item :: int where
  "huge_item = 10 ^ 4300"

text \<open>The values a list of actions appends to \<^verbatim>\<open>results\<close>, in order.\<close>

fun appends :: "event list \<Rightarrow> int option list" where
  "appends [] = []"
| "appends (Append r # evs) = r # appends evs"
| "appends (ev # evs) = appends evs"

text \<open>A record of a failed attempt is a log call whose message starts with \<^verbatim>\<open>Attempt \<close>.\<close>

fun is_attempt_record :: "event \<Rightarrow> bool" where
  "is_attempt_record (LogCall m) = (take 8 m = ''Attempt '')"
| "is_attempt_record (Sleep ms) = False"
| "is_attempt_record (Append r) = False"
| "is_attempt_record (Uncaught e) = False"

section \<open>The singleton logger\<close>

text \<open>
  Objects live in a store and are known by their reference, so that "the identical
  instance" is equality of references. \<open>instances\<close> is the dictionary
  \<^verbatim>\<open>SingletonMeta._instances\<close>, keyed by the class (its name); \<open>files\<close> maps a path to the
  text of the file, the empty text for a file that does not exist yet (opening in mode
  \<^verbatim>\<open>"a"\<close> creates it); \<open>stdout\<close> holds the printed lines, \<open>stderr\<close> the exceptions that
  threads have ended with. I/O errors are not modelled: every \<^verbatim>\<open>open\<close> and \<^verbatim>\<open>write\<close>
  succeeds.
\<close>

type_synonym ref = nat

record logger =
  filepath :: string

record world =
  instances :: "string \<rightharpoonup> ref"
  heap :: "logger list"
  files :: "string \<Rightarrow> string"
  stdout :: "string list"
  stderr :: "exn list"

text \<open>
  \<^verbatim>\<open>
  def __call__(cls, *args, **kwargs):
      if cls not in cls._instances:
          print(f"Creating new instance for {cls.__name__}")
          cls._instances[cls] = super().__call__(*args, **kwargs)
      return cls._instances[cls]
  \<close>
  \<open>init\<close> is the constructor that \<^verbatim>\<open>super().__call__\<close> runs on the new object.
\<close>

definition SingletonMeta_call :: "('args \<Rightarrow> logger) \<Rightarrow> string \<Rightarrow> 'args \<Rightarrow> world \<Rightarrow> ref \<times> world" where
  "SingletonMeta_call init cls args w =
     (case instances w cls of
        Some r \<Rightarrow> (r, w)
      | None \<Rightarrow>
          (let w1 = w\<lparr>stdout := stdout w @ [''Creating new instance for '' @ cls]\<rparr>;
               r = length (heap w1);
               w2 = w1\<lparr>heap := heap w1 @ [init args]\<rparr>
           in (r, w2\<lparr>instances := (instances w2)(cls \<mapsto> r)\<rparr>)))"

text \<open>
  \<^verbatim>\<open>
  def __init__(self, filepath: str = "app.log"):
      self._lock = threading.Lock()
      self.filepath = filepath
  \<close>
  The argument \<open>None\<close> is the call without a file path. The lock has no state between two
  calls of \<^verbatim>\<open>log\<close> that follow one another, and is left out.
\<close>

definition Logger_init :: "string option \<Rightarrow> logger" where
  "Logger_init arg = \<lparr>filepath = (case arg of None \<Rightarrow> ''app.log'' | Some fp \<Rightarrow> fp)\<rparr>"

definition Logger :: "string option \<Rightarrow> world \<Rightarrow> ref \<times> world" where
  "Logger arg w = SingletonMeta_call Logger_init ''Logger'' arg w"

text \<open>
  \<^verbatim>\<open>
  def log(self, message: str):
      with self._lock:
          with open(self.filepath, "a") as f:
              f.write(f"{time.ctime()}: {message}\n")
  \<close>
  \<open>now\<close> is the text that \<^verbatim>\<open>time.ctime()\<close> returns in this call: the clock is read by the
  call itself, inside the lock.
\<close>

definition newline :: char where
  "newline = CHR 0x0A"

definition log_line :: "string \<Rightarrow> string \<Rightarrow> string" where
  "log_line now message = now @ '': '' @ message @ [newline]"

definition Logger_log :: "ref \<Rightarrow> string \<Rightarrow> string \<Rightarrow> world \<Rightarrow> world" where
  "Logger_log self now message w =
     (let path = filepath (heap w ! self)
      in w\<lparr>files := (files w)(path := files w path @ log_line now message)\<rparr>)"

text \<open>A text is one newline-terminated line: its only newline is its last character.\<close>

definition one_line :: "string \<Rightarrow> bool" where
  "one_line s = (s \<noteq> [] \<and> last s = newline \<and> count_list s newline = 1)"

definition fresh_world :: world where
  "fresh_world = \<lparr>instances = Map.empty, heap = [], files = (\<lambda>_. []), stdout = [], stderr = []\<rparr>"

section \<open>The batch run\<close>

text \<open>
  \<^verbatim>\<open>
  def run(self, values: list[int]):
      threads = []
      results = []
      ...
      for val in values:
          t = threading.Thread(target=task, args=(val,))
          threads.append(t)
          t.start()
      for t in threads:
          t.join()
      return results
  \<close>
  One thread per value runs \<open>task\<close>, as \<open>thread\<close> has it. A thread is the list of
  actions it has still to perform; each action is taken as atomic (a log call holds the
  logger's lock, a list append is one step of the interpreter). The threads interleave in
  any order: a schedule
  names, step by step, the thread that moves, together with the clock reading it would
  get. A step for a thread that has finished, or that does not exist, changes nothing.
\<close>

fun exec_event :: "string \<Rightarrow> event \<Rightarrow> int option list \<times> world \<Rightarrow> int option list \<times> world" where
  "exec_event now (LogCall m) (results, w) =
     (case Logger None w of (r, w') \<Rightarrow> (results, Logger_log r now m w'))"
| "exec_event now (Sleep d) (results, w) = (results, w)"
| "exec_event now (Append v) (results, w) = (results @ [v], w)"
| "exec_event now (Uncaught e) (results, w) = (results, w\<lparr>stderr := stderr w @ [e]\<rparr>)"

record config =
  threads :: "event list list"
  results :: "int option list"
  world :: world

definition step :: "nat \<times> string \<Rightarrow> config \<Rightarrow> config" where
  "step pick c =
     (case pick of (i, now) \<Rightarrow>
        if i < length (threads c) then
          (case threads c ! i of
             [] \<Rightarrow> c
           | ev # rest \<Rightarrow>
               (case exec_event now ev (results c, world c) of
                  (rs, w) \<Rightarrow> c\<lparr>threads := (threads c)[i := rest], results := rs, world := w\<rparr>))
        else c)"

definition start :: "int list \<Rightarrow> world \<Rightarrow> config" where
  "start values w = \<lparr>threads = map thread values, results = [], world = w\<rparr>"

definition joined :: "config \<Rightarrow> bool" where
  "joined c = list_all (\<lambda>t. t = []) (threads c)"

text \<open>
  \<open>run\<close> under a schedule: \<open>Some\<close> of the returned list and the world left behind when every
  thread has finished, so that every \<^verbatim>\<open>join\<close> returns; \<open>None\<close> when the schedule ends
  with a thread unfinished, where \<^verbatim>\<open>run\<close> is still waiting in a \<^verbatim>\<open>join\<close>.
\<close>

definition run :: "int list \<Rightarrow> (nat \<times> string) list \<Rightarrow> world \<Rightarrow> (int option list \<times> world) option" where
  "run values sched w =
     (let c = fold step sched (start values w)
      in if joined c then Some (results c, world c) else None)"

text \<open>
  \<open>turns sched i\<close> is the number of steps the schedule gives thread \<open>i\<close>. \<open>sequential\<close> is
  the schedule that runs the threads one after the other. \<open>pending\<close> collects what the
  result list holds together with what the unfinished threads will still append.
\<close>

definition turns :: "(nat \<times> string) list \<Rightarrow> nat \<Rightarrow> nat" where
  "turns sched i = count_list (map fst sched) i"

definition sequential :: "int list \<Rightarrow> string \<Rightarrow> (nat \<times> string) list" where
  "sequential values now =
     concat (map (\<lambda>i. replicate (length (thread (values ! i))) (i, now)) [0..<length values])"

definition pending :: "config \<Rightarrow> int option multiset" where
  "pending c = mset (results c) + mset (appends (concat (threads c)))"

section \<open>Helper lemmas\<close>

subsection \<open>Decimal texts, the conversion limit and the attempt range\<close>

lemma decimal_0: "decimal 0 = ''0''"
  by code_simp

lemma decimal_1: "decimal 1 = ''1''"
  by code_simp

lemma decimal_2: "decimal 2 = ''2''"
  by code_simp

lemma decimal_13: "decimal 13 = ''13''"
  by code_simp

lemma decimal_26: "decimal 26 = ''26''"
  by code_simp

lemma upto_1_2: "[1..2::int] = [1, 2]"
  by (simp add: upto_rec1)

lemma str_nat_length_upper: "0 < k \<Longrightarrow> n < 10 ^ k \<Longrightarrow> length (str_nat n) \<le> k"
proof (induction k arbitrary: n)
  case 0
  then show ?case by simp
next
  case (Suc k)
  show ?case
  proof (cases "n < 10")
    case True
    then show ?thesis by (subst str_nat.simps) simp
  next
    case False
    then have k: "0 < k" using Suc.prems(2) by (cases k) simp_all
    have "n div 10 < 10 ^ k" using Suc.prems(2) by (simp add: div_less_iff_less_mult mult.commute)
    with k have "length (str_nat (n div 10)) \<le> k" by (rule Suc.IH)
    with False show ?thesis by (subst str_nat.simps) simp
  qed
qed

lemma str_nat_length_lower: "10 ^ k \<le> n \<Longrightarrow> k < length (str_nat n)"
proof (induction k arbitrary: n)
  case 0
  show ?case by (subst str_nat.simps) simp
next
  case (Suc k)
  have "(10::nat) ^ 1 \<le> 10 ^ Suc k" by (rule power_increasing) simp_all
  then have "10 ^ 1 \<le> n" using Suc.prems by (rule order_trans)
  then have ge: "\<not> n < 10" by simp
  have "10 ^ k \<le> n div 10" using Suc.prems by (simp add: less_eq_div_iff_mult_less_eq mult.commute)
  then have "k < length (str_nat (n div 10))" by (rule Suc.IH)
  with ge show ?case by (subst str_nat.simps) simp
qed

lemma small_within_limit: "\<bar>i\<bar> < 10000 \<Longrightarrow> \<not> exceeds_limit i"
proof -
  assume "\<bar>i\<bar> < 10000"
  then have "nat \<bar>i\<bar> < 10 ^ 4" by simp
  then have "length (str_nat (nat \<bar>i\<bar>)) \<le> 4" by (intro str_nat_length_upper) simp_all
  then show ?thesis by (simp add: exceeds_limit_def int_max_str_digits_def)
qed

lemma exceeds_limit_minus: "exceeds_limit (- x) = exceeds_limit x"
  by (simp add: exceeds_limit_def)

lemma exceeds_limit_multiple: "0 < m \<Longrightarrow> exceeds_limit (m * huge_item)"
proof -
  assume m: "0 < m"
  have h: "0 < huge_item" by (simp only: huge_item_def zero_less_power zero_less_numeral)
  have "1 * huge_item \<le> m * huge_item" using m h by (intro mult_right_mono) simp_all
  then have le: "huge_item \<le> \<bar>m * huge_item\<bar>" by simp
  have "nat huge_item = 10 ^ 4300"
    unfolding huge_item_def by (simp only: nat_power_eq zero_le_numeral nat_numeral)
  then have "10 ^ 4300 \<le> nat \<bar>m * huge_item\<bar>" using le by (simp only: nat_mono)
  then have "4300 < length (str_nat (nat \<bar>m * huge_item\<bar>))" by (rule str_nat_length_lower)
  then show ?thesis by (simp only: exceeds_limit_def int_max_str_digits_def)
qed

lemma exceeds_limit_huge: "exceeds_limit huge_item"
  using exceeds_limit_multiple [of 1] by simp

lemma huge_item_mod_13: "huge_item mod 13 = 3"
proof -
  have e: "(4300::nat) = 6 * 716 + 4" by simp
  have "huge_item = (10 ^ 6) ^ 716 * 10 ^ 4"
    unfolding huge_item_def by (subst e) (simp only: power_add power_mult)
  then have "huge_item mod 13 = ((10 ^ 6 mod 13) ^ 716 mod 13) * (10 ^ 4 mod 13) mod 13"
    by (simp only: mod_mult_eq power_mod)
  also have "(10::int) ^ 6 mod 13 = 1" by simp
  also have "(10::int) ^ 4 mod 13 = 3" by simp
  finally show ?thesis by simp
qed

subsection \<open>The retry loop, attempt by attempt\<close>

lemma exceeds_limit_iff: "exceeds_limit i \<longleftrightarrow> huge_item \<le> \<bar>i\<bar>"
proof
  assume "huge_item \<le> \<bar>i\<bar>"
  then have "nat huge_item \<le> nat \<bar>i\<bar>" by (rule nat_mono)
  moreover have "nat huge_item = 10 ^ 4300"
    unfolding huge_item_def by (simp only: nat_power_eq zero_le_numeral nat_numeral)
  ultimately have "10 ^ 4300 \<le> nat \<bar>i\<bar>" by (simp only:)
  then have "4300 < length (str_nat (nat \<bar>i\<bar>))" by (rule str_nat_length_lower)
  then show "exceeds_limit i" by (simp only: exceeds_limit_def int_max_str_digits_def)
next
  assume e: "exceeds_limit i"
  show "huge_item \<le> \<bar>i\<bar>"
  proof (rule ccontr)
    assume "\<not> huge_item \<le> \<bar>i\<bar>"
    then have "\<bar>i\<bar> < huge_item" by simp
    then have "nat \<bar>i\<bar> < nat huge_item" by (simp only: nat_less_eq_zless abs_ge_zero)
    moreover have "nat huge_item = 10 ^ 4300"
      unfolding huge_item_def by (simp only: nat_power_eq zero_le_numeral nat_numeral)
    ultimately have "nat \<bar>i\<bar> < 10 ^ 4300" by (simp only:)
    with zero_less_numeral have "length (str_nat (nat \<bar>i\<bar>)) \<le> 4300"
      by (rule str_nat_length_upper)
    moreover from e have "4300 < length (str_nat (nat \<bar>i\<bar>))"
      by (simp only: exceeds_limit_def int_max_str_digits_def)
    ultimately show False by simp
  qed
qed

lemma call_outcome_0: "call_outcome func s 0 = fst (func s)"
  by (simp add: call_outcome_def)

lemma call_events_0: "call_events func s 0 = fst (snd (func s))"
  by (simp add: call_events_def)

lemma call_outcome_Suc: "call_outcome func s (Suc i) = call_outcome func (snd (snd (func s))) i"
  by (simp add: call_outcome_def)

lemma call_events_Suc: "call_events func s (Suc i) = call_events func (snd (snd (func s))) i"
  by (simp add: call_events_def)

lemma upt_Suc_shift: "[0..<Suc k] = 0 # map Suc [0..<k]"
  by (simp add: upt_conv_Cons map_Suc_upt del: upt_Suc)

lemma retry_for_succeeds:
  "\<forall>i<k. isl (call_outcome func s i) \<Longrightarrow> call_outcome func s k = Inr v \<Longrightarrow>
   a + int k \<le> N \<Longrightarrow>
   retry_for N delay func [a..N] s =
     (Inr (Some v),
      concat (map (\<lambda>i. call_events func s i @
         [LogCall (attempt_failed (a + int i) (projl (call_outcome func s i))), Sleep delay]) [0..<k])
        @ call_events func s k,
      after_calls func (Suc k) s)"
proof (induction k arbitrary: s a)
  case 0
  then have "a \<le> N" by simp
  then have "[a..N] = a # [a + 1..N]" by (simp add: upto_rec1)
  moreover obtain r evs s' where f: "func s = (r, evs, s')" by (cases "func s")
  ultimately show ?case using 0 by (simp add: call_outcome_def call_events_def)
next
  case (Suc k)
  obtain r evs s' where f: "func s = (r, evs, s')" by (cases "func s")
  from Suc.prems(1) have "isl (call_outcome func s 0)" by blast
  then obtain e where r: "r = Inl e" using f by (cases r) (simp_all add: call_outcome_def)
  from Suc.prems(3) have lt: "a < N" by simp
  then have up: "[a..N] = a # [a + 1..N]" by (simp add: upto_rec1)
  have s': "snd (snd (func s)) = s'" using f by simp
  have "\<forall>i<k. isl (call_outcome func s' i)"
  proof (intro allI impI)
    fix i assume "i < k"
    then have "isl (call_outcome func s (Suc i))" using Suc.prems(1) by simp
    then show "isl (call_outcome func s' i)" by (simp add: call_outcome_Suc s')
  qed
  moreover have "call_outcome func s' k = Inr v"
    using Suc.prems(2) f by (simp add: call_outcome_Suc)
  moreover have "a + 1 + int k \<le> N" using Suc.prems(3) by simp
  ultimately have IH: "retry_for N delay func [a + 1..N] s' =
     (Inr (Some v),
      concat (map (\<lambda>i. call_events func s' i @
         [LogCall (attempt_failed (a + 1 + int i) (projl (call_outcome func s' i))), Sleep delay]) [0..<k])
        @ call_events func s' k,
      after_calls func (Suc k) s')"
    by (rule Suc.IH)
  let ?F = "\<lambda>i. call_events func s i @
         [LogCall (attempt_failed (a + int i) (projl (call_outcome func s i))), Sleep delay]"
  let ?G = "\<lambda>i. call_events func s' i @
         [LogCall (attempt_failed (a + 1 + int i) (projl (call_outcome func s' i))), Sleep delay]"
  have FG: "?F (Suc i) = ?G i" for i
    by (simp add: call_events_Suc call_outcome_Suc s' ac_simps)
  have "map ?F [0..<Suc k] = ?F 0 # map ?G [0..<k]"
    unfolding upt_Suc_shift list.map map_map comp_def FG ..
  then have tr: "concat (map ?F [0..<Suc k]) = ?F 0 @ concat (map ?G [0..<k])"
    by (simp only: concat.simps)
  have F0: "?F 0 = evs @ [LogCall (attempt_failed a e), Sleep delay]"
    using f r by (simp add: call_events_0 call_outcome_0)
  have step: "retry_for N delay func [a..N] s =
      (case retry_for N delay func [a + 1..N] s' of
         (r, evs2, s'') \<Rightarrow> (r, evs @ [LogCall (attempt_failed a e), Sleep delay] @ evs2, s''))"
    using f r lt by (simp add: up)
  have ev: "call_events func s (Suc k) = call_events func s' k"
    by (simp add: call_events_Suc s')
  have st: "after_calls func (Suc (Suc k)) s = after_calls func (Suc k) s'"
    by (simp add: s')
  show ?case
    unfolding step IH tr F0 ev st by simp
qed

lemma retry_for_succeeds_trace:
  "\<forall>i<k. isl (call_outcome func s i) \<Longrightarrow> call_outcome func s k = Inr v \<Longrightarrow>
   a + int k \<le> N \<Longrightarrow>
   retry_for N delay func [a..N] s =
     (Inr (Some v), failed_attempts delay func s a k @ call_events func s k,
      after_calls func (Suc k) s)"
  unfolding failed_attempts_def by (rule retry_for_succeeds)

lemma failed_attempts_Suc:
  "failed_attempts delay func s a (Suc k) =
     failed_attempts delay func s a k @ call_events func s k @
        [LogCall (attempt_failed (a + int k) (projl (call_outcome func s k))), Sleep delay]"
  by (simp add: failed_attempts_def)

lemma failed_attempts_shift:
  "failed_attempts delay func s a (Suc k) =
     call_events func s 0 @ [LogCall (attempt_failed a (projl (call_outcome func s 0))), Sleep delay]
       @ failed_attempts delay func (snd (snd (func s))) (a + 1) k"
proof -
  let ?F = "\<lambda>i. call_events func s i @
         [LogCall (attempt_failed (a + int i) (projl (call_outcome func s i))), Sleep delay]"
  let ?G = "\<lambda>i. call_events func (snd (snd (func s))) i @
         [LogCall (attempt_failed (a + 1 + int i) (projl (call_outcome func (snd (snd (func s))) i))), Sleep delay]"
  have FG: "?F (Suc i) = ?G i" for i
    by (simp add: call_events_Suc call_outcome_Suc ac_simps)
  have "map ?F [0..<Suc k] = ?F 0 # map ?G [0..<k]"
    unfolding upt_Suc_shift list.map map_map comp_def FG ..
  then show ?thesis
    unfolding failed_attempts_def by simp
qed

lemma count_log_failed_attempts:
  "length (filter is_LogCall (failed_attempts delay func s a k)) = k + own_log_calls func s k"
  by (induction k) (simp_all add: failed_attempts_Suc own_log_calls_def, simp add: failed_attempts_def)

lemma retry_for_exhausts:
  "\<forall>i<Suc m. isl (call_outcome func s i) \<Longrightarrow> a + int m = N \<Longrightarrow>
   retry_for N delay func [a..N] s =
     (Inl (projl (call_outcome func s m)),
      failed_attempts delay func s a m @ call_events func s m @
        [LogCall (attempt_failed N (projl (call_outcome func s m)))],
      after_calls func (Suc m) s)"
proof (induction m arbitrary: s a)
  case 0
  then have "[a..N] = [N]" by (simp add: upto_rec1)
  moreover obtain r evs s' where f: "func s = (r, evs, s')" by (cases "func s")
  moreover from 0 have "isl (call_outcome func s 0)" by blast
  then obtain e where "r = Inl e" using f by (cases r) (simp_all add: call_outcome_def)
  ultimately show ?case using 0
    by (simp add: call_outcome_def call_events_def failed_attempts_def)
next
  case (Suc m)
  obtain r evs s' where f: "func s = (r, evs, s')" by (cases "func s")
  have s': "snd (snd (func s)) = s'" using f by simp
  from Suc.prems(1) have "isl (call_outcome func s 0)" by blast
  then obtain e where r: "r = Inl e" using f by (cases r) (simp_all add: call_outcome_def)
  from Suc.prems(2) have lt: "a < N" by simp
  then have up: "[a..N] = a # [a + 1..N]" by (simp add: upto_rec1)
  have "\<forall>i<Suc m. isl (call_outcome func s' i)"
  proof (intro allI impI)
    fix i assume "i < Suc m"
    then have "isl (call_outcome func s (Suc i))" using Suc.prems(1) by simp
    then show "isl (call_outcome func s' i)" by (simp add: call_outcome_Suc s')
  qed
  moreover have "a + 1 + int m = N" using Suc.prems(2) by simp
  ultimately have IH: "retry_for N delay func [a + 1..N] s' =
     (Inl (projl (call_outcome func s' m)),
      failed_attempts delay func s' (a + 1) m @ call_events func s' m @
        [LogCall (attempt_failed N (projl (call_outcome func s' m)))],
      after_calls func (Suc m) s')"
    by (rule Suc.IH)
  have step: "retry_for N delay func [a..N] s =
      (case retry_for N delay func [a + 1..N] s' of
         (r, evs2, s'') \<Rightarrow> (r, evs @ [LogCall (attempt_failed a e), Sleep delay] @ evs2, s''))"
    using f r lt by (simp add: up)
  have F0: "call_events func s 0 = evs" "projl (call_outcome func s 0) = e"
    using f r by (simp_all add: call_events_0 call_outcome_0)
  have ev: "call_events func s (Suc m) = call_events func s' m"
    by (simp add: call_events_Suc s')
  have oc: "call_outcome func s (Suc m) = call_outcome func s' m"
    by (simp add: call_outcome_Suc s')
  have st: "after_calls func (Suc (Suc m)) s = after_calls func (Suc m) s'"
    by (simp add: s')
  show ?case
    unfolding step IH failed_attempts_shift F0 ev oc st s' by simp
qed

subsection \<open>What one unit of execution does\<close>

lemma str_int_within: "\<not> exceeds_limit i \<Longrightarrow> str_int i = Inr (decimal i)"
  by (simp add: str_int_def)

lemma str_int_exceeds: "exceeds_limit i \<Longrightarrow> str_int i = Inl limit_error"
  by (simp add: str_int_def)

lemma take_attempt_failed: "take 8 (attempt_failed a e) = ''Attempt ''"
  by (simp add: attempt_failed_def)

lemma process_unlucky:
  "val mod 13 = 0 \<Longrightarrow> process val =
     (Inl (ValueError ''Unlucky number!''),
      [LogCall ''Attempt 1 failed: Unlucky number!'', Sleep 1000,
       LogCall ''Attempt 2 failed: Unlucky number!''])"
  by (simp add: process_def inner_def upto_1_2 process_func_def attempt_failed_def
      decimal_1 decimal_2)

lemma process_lucky:
  "val mod 13 \<noteq> 0 \<Longrightarrow> \<not> exceeds_limit val \<Longrightarrow> process val =
     (Inr (Some (val ^ 2)), [Sleep 10, LogCall (''Processed: '' @ decimal val)])"
  by (simp add: process_def inner_def upto_1_2 process_func_def str_int_within)

lemma process_too_long:
  "val mod 13 \<noteq> 0 \<Longrightarrow> exceeds_limit val \<Longrightarrow> process val =
     (Inl limit_error,
      [Sleep 10, LogCall (attempt_failed 1 limit_error), Sleep 1000,
       Sleep 10, LogCall (attempt_failed 2 limit_error)])"
  by (simp add: process_def inner_def upto_1_2 process_func_def str_int_exceeds)

lemma task_unlucky:
  "val mod 13 = 0 \<Longrightarrow> \<not> exceeds_limit val \<Longrightarrow> task val =
     (Inr (), [LogCall ''Attempt 1 failed: Unlucky number!'', Sleep 1000,
               LogCall ''Attempt 2 failed: Unlucky number!'',
               LogCall (''Failed processing '' @ decimal val @ '': Unlucky number!'')])"
  by (simp add: task_def process_unlucky str_int_within)

lemma task_unlucky_too_long:
  "val mod 13 = 0 \<Longrightarrow> exceeds_limit val \<Longrightarrow> task val =
     (Inl limit_error,
      [LogCall ''Attempt 1 failed: Unlucky number!'', Sleep 1000,
       LogCall ''Attempt 2 failed: Unlucky number!''])"
  by (simp add: task_def process_unlucky str_int_exceeds)

lemma task_lucky:
  "val mod 13 \<noteq> 0 \<Longrightarrow> \<not> exceeds_limit val \<Longrightarrow> task val =
     (Inr (), [Sleep 10, LogCall (''Processed: '' @ decimal val), Append (Some (val ^ 2))])"
  by (simp add: task_def process_lucky)

lemma task_lucky_too_long:
  "val mod 13 \<noteq> 0 \<Longrightarrow> exceeds_limit val \<Longrightarrow> task val =
     (Inl limit_error,
      [Sleep 10, LogCall (attempt_failed 1 limit_error), Sleep 1000,
       Sleep 10, LogCall (attempt_failed 2 limit_error)])"
  by (simp add: task_def process_too_long str_int_exceeds)

lemma appends_append: "appends (xs @ ys) = appends xs @ appends ys"
  by (induction xs rule: appends.induct) simp_all

lemma appends_thread:
  "appends (thread val) =
     (if val mod 13 \<noteq> 0 \<and> \<not> exceeds_limit val then [Some (val ^ 2)] else [])"
  by (cases "val mod 13 = 0"; cases "exceeds_limit val")
     (simp_all add: thread_def task_unlucky task_unlucky_too_long task_lucky task_lucky_too_long)

lemma appends_threads:
  "appends (concat (map thread vals))
     = map (\<lambda>x. Some (x ^ 2)) (filter (\<lambda>x. x mod 13 \<noteq> 0 \<and> \<not> exceeds_limit x) vals)"
  by (induction vals) (simp_all add: appends_append appends_thread)

lemma task_outcome:
  "fst (task val) = (if exceeds_limit val then Inl limit_error else Inr ())"
  by (cases "val mod 13 = 0"; cases "exceeds_limit val")
     (simp_all add: task_unlucky task_unlucky_too_long task_lucky task_lucky_too_long)

lemma thread_task:
  "thread val = snd (task val) @ (if exceeds_limit val then [Uncaught limit_error] else [])"
  by (cases "val mod 13 = 0"; cases "exceeds_limit val")
     (simp_all add: thread_def task_unlucky task_unlucky_too_long task_lucky task_lucky_too_long)

lemma exec_event_results:
  "fst (exec_event now ev (rs, w)) = rs @ appends [ev]"
  by (cases ev) (simp_all split: prod.splits)

lemma appends_Cons: "appends (ev # evs) = appends [ev] @ appends evs"
  by (cases ev) simp_all

lemma appends_concat_update:
  assumes "i < length xs" "xs ! i = y # ys"
  shows "mset (appends (concat xs)) = mset (appends [y]) + mset (appends (concat (xs[i := ys])))"
proof -
  have "xs = take i xs @ (y # ys) # drop (Suc i) xs"
    using assms by (metis id_take_nth_drop)
  then have "concat xs = concat (take i xs) @ (y # ys) @ concat (drop (Suc i) xs)"
    by (metis concat.simps(2) concat_append)
  moreover have "xs[i := ys] = take i xs @ ys # drop (Suc i) xs"
    using assms(1) by (rule upd_conv_take_nth_drop)
  then have "concat (xs[i := ys]) = concat (take i xs) @ ys @ concat (drop (Suc i) xs)"
    by (metis concat.simps(2) concat_append)
  ultimately show ?thesis
    by (cases y) (simp_all add: appends_append)
qed

subsection \<open>The scheduler: what is appended, and when every thread has finished\<close>

lemma step_pending: "pending (step p c) = pending c"
proof (cases p)
  case (Pair i now)
  show ?thesis
  proof (cases "i < length (threads c)")
    case False
    then show ?thesis by (simp add: step_def Pair)
  next
    case True
    show ?thesis
    proof (cases "threads c ! i")
      case Nil
      then show ?thesis by (simp add: step_def Pair True)
    next
      case (Cons ev rest)
      obtain rs w where ex: "exec_event now ev (results c, world c) = (rs, w)"
        by (cases "exec_event now ev (results c, world c)")
      then have rs: "rs = results c @ appends [ev]"
        using exec_event_results [of now ev "results c" "world c"] by simp
      have "step p c = c\<lparr>threads := (threads c)[i := rest], results := rs, world := w\<rparr>"
        by (simp add: step_def Pair True Cons ex)
      then show ?thesis
        using appends_concat_update [OF True Cons] by (simp add: pending_def rs)
    qed
  qed
qed

lemma fold_step_pending: "pending (fold step sched c) = pending c"
  by (induction sched arbitrary: c) (simp_all add: step_pending)

lemma joined_concat: "joined c \<Longrightarrow> concat (threads c) = []"
  by (simp add: joined_def list_all_iff)

lemma run_results_mset:
  assumes "run vals sched w = Some (res, w')"
  shows "mset res = mset (map (\<lambda>x. Some (x ^ 2))
           (filter (\<lambda>x. x mod 13 \<noteq> 0 \<and> \<not> exceeds_limit x) vals))"
proof -
  let ?c = "fold step sched (start vals w)"
  from assms have j: "joined ?c" and r: "res = results ?c"
    by (auto simp: run_def Let_def split: if_splits)
  have p: "pending ?c = mset res"
    unfolding pending_def r joined_concat [OF j] by simp
  have q: "pending (start vals w)
      = mset (map (\<lambda>x. Some (x ^ 2))
          (filter (\<lambda>x. x mod 13 \<noteq> 0 \<and> \<not> exceeds_limit x) vals))"
    by (simp add: pending_def start_def appends_threads)
  show ?thesis
    using fold_step_pending [of sched "start vals w"] p q by simp
qed

lemma step_length: "length (threads (step p c)) = length (threads c)"
  by (cases p) (simp add: step_def split: list.splits prod.splits)

lemma step_nth:
  "i < length (threads c) \<Longrightarrow>
   threads (step p c) ! i = (if fst p = i then drop 1 (threads c ! i) else threads c ! i)"
  by (cases p) (auto simp: step_def split: list.splits prod.splits)

lemma turns_Cons: "turns (p # sched) i = (if fst p = i then 1 else 0) + turns sched i"
  by (simp add: turns_def)

lemma fold_step_length: "length (threads (fold step sched c)) = length (threads c)"
  by (induction sched arbitrary: c) (simp_all add: step_length)

lemma fold_step_nth:
  "i < length (threads c) \<Longrightarrow>
   threads (fold step sched c) ! i = drop (turns sched i) (threads c ! i)"
proof (induction sched arbitrary: c)
  case Nil
  then show ?case by (simp add: turns_def)
next
  case (Cons p sched)
  from Cons.prems have "i < length (threads (step p c))" by (simp add: step_length)
  then have "threads (fold step sched (step p c)) ! i
      = drop (turns sched i) (threads (step p c) ! i)"
    by (rule Cons.IH)
  then show ?case
    using Cons.prems by (simp add: step_nth turns_Cons)
qed

lemma joined_iff:
  "joined c \<longleftrightarrow> (\<forall>i<length (threads c). threads c ! i = [])"
  by (simp add: joined_def list_all_length)

lemma run_returns_iff:
  "run vals sched w \<noteq> None \<longleftrightarrow>
     (\<forall>i<length vals. length (thread (vals ! i)) \<le> turns sched i)"
proof -
  let ?c = "fold step sched (start vals w)"
  have len: "length (threads (start vals w)) = length vals" by (simp add: start_def)
  have "joined ?c \<longleftrightarrow> (\<forall>i<length vals. drop (turns sched i) (thread (vals ! i)) = [])"
    unfolding joined_iff fold_step_length len
    by (intro all_cong) (simp add: fold_step_nth len start_def)
  then show ?thesis
    by (simp add: run_def Let_def)
qed

lemma run_empty: "run [] sched w = Some ([], w)"
proof -
  have "fold step sched (start [] w) = start [] w"
    by (induction sched) (simp_all add: step_def start_def split: prod.splits)
  then show ?thesis by (simp add: run_def joined_def start_def)
qed

lemma turns_append: "turns (xs @ ys) i = turns xs i + turns ys i"
  by (simp add: turns_def)

lemma turns_replicate: "turns (replicate n (j, now)) i = (if j = i then n else 0)"
  by (induction n) (auto simp: turns_def)

lemma turns_concat_upt:
  "turns (concat (map (\<lambda>j. replicate (f j) (j, now)) [0..<n])) i = (if i < n then f i else 0)"
  by (induction n) (simp_all add: turns_append turns_replicate, simp add: turns_def)

lemma run_sequential: "run vals (sequential vals now) w \<noteq> None"
  unfolding run_returns_iff sequential_def by (simp add: turns_concat_upt)

lemma unlucky_minus: "(- x) mod 13 = 0 \<longleftrightarrow> x mod (13::int) = 0"
  by presburger

lemma count_squares:
  "(x::int) mod 13 \<noteq> 0 \<Longrightarrow> \<not> exceeds_limit x \<Longrightarrow>
   count_list (map (\<lambda>y. Some (y ^ 2))
       (filter (\<lambda>y. y mod 13 \<noteq> 0 \<and> \<not> exceeds_limit y) vals)) (Some (x ^ 2))
     = length (filter (\<lambda>y. y = x \<or> y = - x) vals)"
proof (induction vals)
  case Nil
  then show ?case by simp
next
  case (Cons y vals)
  show ?case
  proof (cases "y mod 13 \<noteq> 0 \<and> \<not> exceeds_limit y")
    case False
    then have "\<not> (y = x \<or> y = - x)"
      using Cons.prems unlucky_minus [of x] exceeds_limit_minus [of x] by auto
    with False Cons show ?thesis by simp
  next
    case True
    with Cons show ?thesis by (simp add: power2_eq_iff)
  qed
qed

lemma count_squares_none:
  "(x::int) mod 13 = 0 \<or> exceeds_limit x \<Longrightarrow>
   count_list (map (\<lambda>y. Some (y ^ 2))
       (filter (\<lambda>y. y mod 13 \<noteq> 0 \<and> \<not> exceeds_limit y) vals)) (Some (x ^ 2)) = 0"
proof (induction vals)
  case Nil
  then show ?case by simp
next
  case (Cons y vals)
  show ?case
  proof (cases "y mod 13 \<noteq> 0 \<and> \<not> exceeds_limit y")
    case False
    with Cons show ?thesis by simp
  next
    case True
    then have "\<not> (y = x \<or> y = - x)"
      using Cons.prems unlucky_minus [of x] exceeds_limit_minus [of x] by auto
    with True Cons show ?thesis by (simp add: power2_eq_iff)
  qed
qed

lemma run_count_square:
  assumes "run vals sched w = Some (res, w')"
  shows "count_list res (Some (x * x)) =
     (if x mod 13 \<noteq> 0 \<and> \<not> exceeds_limit x
      then length (filter (\<lambda>y. y = x \<or> y = - x) vals) else 0)"
proof -
  let ?ok = "map (\<lambda>y. Some (y ^ 2)) (filter (\<lambda>y. y mod 13 \<noteq> 0 \<and> \<not> exceeds_limit y) vals)"
  from assms have "mset res = mset ?ok" by (rule run_results_mset)
  then have "count (mset res) (Some (x * x)) = count (mset ?ok) (Some (x * x))"
    by (rule arg_cong)
  then have c: "count_list res (Some (x ^ 2)) = count_list ?ok (Some (x ^ 2))"
    by (simp only: count_mset power2_eq_square)
  show ?thesis
  proof (cases "x mod 13 \<noteq> 0 \<and> \<not> exceeds_limit x")
    case True
    then show ?thesis using c count_squares [of x vals] by (simp add: power2_eq_square)
  next
    case False
    then have "x mod 13 = 0 \<or> exceeds_limit x" by simp
    then have "count_list ?ok (Some (x ^ 2)) = 0" by (rule count_squares_none)
    with c have z: "count_list res (Some (x * x)) = 0" by (simp add: power2_eq_square)
    show ?thesis unfolding if_not_P [OF False] by (rule z)
  qed
qed

lemma run_length:
  assumes "run vals sched w = Some (res, w')"
  shows "length res = length (filter (\<lambda>x. x mod 13 \<noteq> 0 \<and> \<not> exceeds_limit x) vals)"
proof -
  from assms have "mset res = mset (map (\<lambda>x. Some (x ^ 2))
      (filter (\<lambda>x. x mod 13 \<noteq> 0 \<and> \<not> exceeds_limit x) vals))"
    by (rule run_results_mset)
  then have "length res = length (map (\<lambda>x. Some (x ^ 2))
      (filter (\<lambda>x. x mod 13 \<noteq> 0 \<and> \<not> exceeds_limit x) vals))"
    by (rule mset_eq_length)
  then show ?thesis by simp
qed

lemma run_huge_item:
  "run [huge_item] (sequential [huge_item] now) w \<noteq> None
   \<and> fst (the (run [huge_item] (sequential [huge_item] now) w)) = []"
proof -
  have some: "run [huge_item] (sequential [huge_item] now) w \<noteq> None" by (rule run_sequential)
  then obtain res w' where r: "run [huge_item] (sequential [huge_item] now) w = Some (res, w')"
    by fastforce
  then have "length res = length (filter (\<lambda>x. x mod 13 \<noteq> 0 \<and> \<not> exceeds_limit x) [huge_item])"
    by (rule run_length)
  then have "res = []" by (simp add: exceeds_limit_huge)
  with some r show ?thesis by simp
qed

subsection \<open>The logger and its file\<close>

lemma Logger_log_files:
  "files (Logger_log self now message w) =
     (files w)(filepath (heap w ! self) := files w (filepath (heap w ! self)) @ log_line now message)"
  by (simp add: Logger_log_def Let_def)

lemma one_line_log_line:
  assumes "newline \<notin> set now" "newline \<notin> set message"
  shows "one_line (log_line now message)"
proof -
  have a: "count_list now newline = 0" "count_list message newline = 0"
    using assms by (simp_all only: count_list_0_iff not_False_eq_True)
  have c: "CHR '':'' \<noteq> newline" "CHR '' '' \<noteq> newline"
    by (simp_all add: newline_def)
  show ?thesis
    unfolding one_line_def log_line_def by (simp add: a c)
qed

lemma Logger_fresh:
  "Logger None fresh_world =
     (0, \<lparr>instances = [''Logger'' \<mapsto> 0], heap = [\<lparr>filepath = ''app.log''\<rparr>],
         files = (\<lambda>_. []), stdout = [''Creating new instance for Logger''], stderr = []\<rparr>)"
  by (simp add: Logger_def SingletonMeta_call_def fresh_world_def Logger_init_def)

lemma Logger_again: "instances w ''Logger'' = Some r \<Longrightarrow> Logger arg w = (r, w)"
  by (simp add: Logger_def SingletonMeta_call_def)

lemma Logger_first:
  assumes "instances w ''Logger'' = None" "Logger first w = (r, w1)"
  shows "instances w1 ''Logger'' = Some r"
    and "heap w1 ! r = Logger_init first"
    and "files w1 = files w"
  using assms by (auto simp: Logger_def SingletonMeta_call_def Let_def)

lemma fold_Logger_again:
  "instances w ''Logger'' = Some r \<Longrightarrow> fold (\<lambda>a v. snd (Logger a v)) args w = w"
  by (induction args) (simp_all add: Logger_again)

section \<open>Properties of the retry decorator\<close>

text \<open>
  C3. An operation fails on its first \<open>k\<close> invocations and succeeds with \<open>v\<close> on the next
  one, and \<open>k\<close> is below the attempt count \<open>N\<close> (so \<open>N\<close> is at least 1). Then the wrapped
  call returns \<open>v\<close>; the operation has been invoked \<open>k + 1\<close> times; the actions are, for
  each failed attempt \<open>i + 1\<close>, those of the operation, one record
  \<^verbatim>\<open>Attempt <i + 1> failed: <cause>\<close> and one sleep, followed by the actions of the successful
  invocation. So the wrapper writes exactly \<open>k\<close> records: the log calls of the whole
  execution are these \<open>k\<close> and the ones the operation makes itself.
\<close>

theorem retry_succeeds_after_failures:
  assumes "\<forall>i<k. isl (call_outcome func s i)"
    and "call_outcome func s k = Inr v"
    and "int k < N"
  shows "inner N delay func s =
           (Inr (Some v), failed_attempts delay func s 1 k @ call_events func s k,
            after_calls func (Suc k) s)
       \<and> length (filter is_LogCall (fst (snd (inner N delay func s))))
           = k + own_log_calls func s (Suc k)"
proof -
  from assms(3) have "1 + int k \<le> N" by simp
  with assms(1,2) have eq: "inner N delay func s =
           (Inr (Some v), failed_attempts delay func s 1 k @ call_events func s k,
            after_calls func (Suc k) s)"
    unfolding inner_def by (rule retry_for_succeeds_trace)
  then show ?thesis
    by (simp add: count_log_failed_attempts own_log_calls_def)
qed

theorem retry_succeeds_after_failures_witness:
  "inner 3 1000 (\<lambda>c::nat. (if c < 1 then Inl (OtherException ''transient'') else Inr (42::int), [], Suc c)) 0
     = (Inr (Some 42), [LogCall ''Attempt 1 failed: transient'', Sleep 1000], 2)
   \<and> length (filter is_LogCall (fst (snd (inner 3 1000
        (\<lambda>c::nat. (if c < 1 then Inl (OtherException ''transient'') else Inr (42::int), [], Suc c)) 0)))) = 1"
  using retry_succeeds_after_failures [of 1
      "\<lambda>c::nat. (if c < 1 then Inl (OtherException ''transient'') else Inr (42::int), [], Suc c)"
      0 42 3 1000]
  by (simp add: call_outcome_def call_events_def failed_attempts_def own_log_calls_def
      attempt_failed_def decimal_1)

text \<open>
  C4. An operation fails on each of its first \<open>n\<close> invocations, and the attempt count is
  \<open>n\<close>, at least 1. Then the wrapped call raises the exception of the last attempt; the
  operation has been invoked exactly \<open>n\<close> times; each attempt leaves one record, the last
  one with no sleep after it: the wrapper writes exactly \<open>n\<close> records. With \<open>n = 1\<close> the
  single attempt is followed by its record and the exception at once.
\<close>

theorem retry_exhausts_all_attempts:
  assumes "0 < n"
    and "\<forall>i<n. isl (call_outcome func s i)"
  shows "inner (int n) delay func s =
           (Inl (projl (call_outcome func s (n - 1))),
            failed_attempts delay func s 1 (n - 1) @ call_events func s (n - 1) @
              [LogCall (attempt_failed (int n) (projl (call_outcome func s (n - 1))))],
            after_calls func n s)
       \<and> length (filter is_LogCall (fst (snd (inner (int n) delay func s))))
           = n + own_log_calls func s n"
proof -
  from assms(1) obtain m where n: "n = Suc m" by (cases n) simp_all
  have "\<forall>i<Suc m. isl (call_outcome func s i)" using assms(2) n by simp
  moreover have "1 + int m = int n" using n by simp
  ultimately have "retry_for (int n) delay func [1..int n] s =
     (Inl (projl (call_outcome func s m)),
      failed_attempts delay func s 1 m @ call_events func s m @
        [LogCall (attempt_failed (int n) (projl (call_outcome func s m)))],
      after_calls func (Suc m) s)"
    by (rule retry_for_exhausts)
  then show ?thesis
    unfolding inner_def n
    by (simp add: count_log_failed_attempts own_log_calls_def)
qed

theorem retry_exhausts_all_attempts_witness:
  "inner 1 1000 (\<lambda>c::nat. (Inl (OtherException ''down'') :: exn + int, [], Suc c)) 0
     = (Inl (OtherException ''down''), [LogCall ''Attempt 1 failed: down''], 1)
   \<and> length (filter is_LogCall (fst (snd (inner 1 1000
        (\<lambda>c::nat. (Inl (OtherException ''down'') :: exn + int, [], Suc c)) 0)))) = 1"
  using retry_exhausts_all_attempts [of 1
      "\<lambda>c::nat. (Inl (OtherException ''down'') :: exn + int, [], Suc c)" 0 1000]
  by (simp add: call_outcome_def call_events_def failed_attempts_def own_log_calls_def
      attempt_failed_def decimal_1)

text \<open>
  C9. With a non-positive attempt count, \<^verbatim>\<open>range(1, retries + 1)\<close> is empty: the wrapped
  call returns \<^verbatim>\<open>None\<close>, the operation is not invoked (its state is untouched), nothing
  is raised and nothing is logged (no action at all is performed).
\<close>

theorem inner_nonpositive_retries:
  "retries \<le> 0 \<Longrightarrow> inner retries delay func s = (Inr None, [], s)"
  by (simp add: inner_def)

theorem inner_nonpositive_retries_witness:
  "inner 0 1000 (\<lambda>n::nat. (Inl (ValueError ''boom'') :: exn + int, [LogCall ''called''], Suc n)) 7
     = (Inr None, [], 7)"
  using inner_nonpositive_retries [of 0 1000
      "\<lambda>n::nat. (Inl (ValueError ''boom'') :: exn + int, [LogCall ''called''], Suc n)" 7]
  by simp

section \<open>Properties of the batch run\<close>

text \<open>
  C1, as the code has it. \<^verbatim>\<open>0 % 13 == 0\<close> holds, so \<^verbatim>\<open>process(0)\<close> raises like
  \<^verbatim>\<open>process(13)\<close> and \<^verbatim>\<open>process(26)\<close>. Whatever the interleaving, when the batch
  \<^verbatim>\<open>[0, 1, 13, 26, 5]\<close> returns, the result holds exactly 1 and 25, once each, and no
  result for 0, 13 or 26; the threads of 0, 13 and 26 each write exactly two records of
  failed attempts, one per attempt (and, after them, the one record
  \<^verbatim>\<open>Failed processing <val>: Unlucky number!\<close> of the handler in \<^verbatim>\<open>task\<close>).
\<close>

theorem run_end_to_end:
  "run [0, 1, 13, 26, 5] sched w = Some (res, w') \<Longrightarrow>
     mset res = {#Some 1, Some 25#}
   \<and> Some 0 \<notin> set res \<and> Some 169 \<notin> set res \<and> Some 676 \<notin> set res
   \<and> filter is_attempt_record (snd (task 0)) =
       [LogCall ''Attempt 1 failed: Unlucky number!'',
        LogCall ''Attempt 2 failed: Unlucky number!'']
   \<and> filter is_attempt_record (snd (task 13)) =
       [LogCall ''Attempt 1 failed: Unlucky number!'',
        LogCall ''Attempt 2 failed: Unlucky number!'']
   \<and> filter is_attempt_record (snd (task 26)) =
       [LogCall ''Attempt 1 failed: Unlucky number!'',
        LogCall ''Attempt 2 failed: Unlucky number!'']"
proof -
  assume "run [0, 1, 13, 26, 5] sched w = Some (res, w')"
  then have "mset res = mset (map (\<lambda>x. Some (x ^ 2))
      (filter (\<lambda>x. x mod 13 \<noteq> 0 \<and> \<not> exceeds_limit x) [0, 1, 13, 26, 5]))"
    by (rule run_results_mset)
  then have m: "mset res = {#Some 1, Some 25#}"
    by (simp add: small_within_limit)
  then have "set res = {Some 1, Some 25}"
    by (metis set_mset_mset set_mset_add_mset_insert set_mset_empty)
  then have "Some 0 \<notin> set res \<and> Some 169 \<notin> set res \<and> Some 676 \<notin> set res" by simp
  with m show ?thesis
    by (simp add: task_unlucky small_within_limit)
qed

theorem run_end_to_end_witness:
  "mset (fst (the (run [0, 1, 13, 26, 5] (sequential [0, 1, 13, 26, 5] ''T'') fresh_world)))
     = {#Some 1, Some 25#}"
proof -
  obtain res w' where
    "run [0, 1, 13, 26, 5] (sequential [0, 1, 13, 26, 5] ''T'') fresh_world = Some (res, w')"
    using run_sequential [of "[0, 1, 13, 26, 5]" "''T''" fresh_world] by fastforce
  then show ?thesis
    using run_end_to_end [of "sequential [0, 1, 13, 26, 5] ''T''" fresh_world res w'] by simp
qed

text \<open>
  The batch of C1 under the schedule that runs the threads one after the other:
  \<^verbatim>\<open>process(0)\<close> raises, the run returns, and the result has two entries, none of them 0.
\<close>

theorem run_end_to_end_counterexample:
  "fst (process 0) = Inl (ValueError ''Unlucky number!'')
   \<and> run [0, 1, 13, 26, 5] (sequential [0, 1, 13, 26, 5] ''T'') fresh_world \<noteq> None
   \<and> Some 0 \<notin> set (fst (the (run [0, 1, 13, 26, 5] (sequential [0, 1, 13, 26, 5] ''T'') fresh_world)))
   \<and> length (fst (the (run [0, 1, 13, 26, 5] (sequential [0, 1, 13, 26, 5] ''T'') fresh_world))) = 2"
proof -
  let ?r = "run [0, 1, 13, 26, 5] (sequential [0, 1, 13, 26, 5] ''T'') fresh_world"
  have some: "?r \<noteq> None" by (rule run_sequential)
  then obtain res w' where r: "?r = Some (res, w')" by fastforce
  then have "mset res = mset (map (\<lambda>x. Some (x ^ 2))
      (filter (\<lambda>x. x mod 13 \<noteq> 0 \<and> \<not> exceeds_limit x) [0, 1, 13, 26, 5]))"
    by (rule run_results_mset)
  then have m: "mset res = {#Some 1, Some 25#}" by (simp add: small_within_limit)
  then have "set res = {Some 1, Some 25}"
    by (metis set_mset_mset set_mset_add_mset_insert set_mset_empty)
  moreover from m have "size (mset res) = 2" by simp
  ultimately show ?thesis
    using some by (simp add: r process_unlucky)
qed

text \<open>
  C2, as the code has it. An item of more than 4300 digits cannot be written into a log
  message, so it fails on both attempts even when 13 does not divide it. Whatever the
  interleaving, when \<^verbatim>\<open>run\<close> returns, the result has as many entries as there are
  submitted items that are not divisible by 13 and have at most 4300 digits, hence at
  most as many as there are items. \<^verbatim>\<open>run\<close> has returned exactly when every thread has
  been given as many steps as it has actions, and the schedule that runs the threads in
  turn makes it return. On the empty input every schedule returns the empty result at
  once.
\<close>

theorem run_outcome_size:
  "(run vals sched w = Some (res, w') \<longrightarrow>
      length res = length (filter (\<lambda>x. x mod 13 \<noteq> 0 \<and> \<not> exceeds_limit x) vals)
      \<and> length res \<le> length vals)
   \<and> (run vals sched w \<noteq> None \<longleftrightarrow>
        (\<forall>i<length vals. length (thread (vals ! i)) \<le> turns sched i))
   \<and> run vals (sequential vals now) w \<noteq> None
   \<and> run [] sched w = Some ([], w)"
proof -
  have A: "run vals sched w = Some (res, w') \<longrightarrow>
      length res = length (filter (\<lambda>x. x mod 13 \<noteq> 0 \<and> \<not> exceeds_limit x) vals)
      \<and> length res \<le> length vals"
  proof
    assume "run vals sched w = Some (res, w')"
    then have "length res = length (filter (\<lambda>x. x mod 13 \<noteq> 0 \<and> \<not> exceeds_limit x) vals)"
      by (rule run_length)
    then show "length res = length (filter (\<lambda>x. x mod 13 \<noteq> 0 \<and> \<not> exceeds_limit x) vals)
      \<and> length res \<le> length vals"
      by simp
  qed
  show ?thesis
    by (intro conjI) (rule A, rule run_returns_iff, rule run_sequential, rule run_empty)
qed

theorem run_outcome_size_witness:
  "run [2, 13, 3] (sequential [2, 13, 3] ''T'') fresh_world \<noteq> None
   \<and> length (fst (the (run [2, 13, 3] (sequential [2, 13, 3] ''T'') fresh_world))) = 2
   \<and> run [] [(0, ''T'')] fresh_world = Some ([], fresh_world)"
proof -
  obtain res w' where r: "run [2, 13, 3] (sequential [2, 13, 3] ''T'') fresh_world = Some (res, w')"
    using run_sequential [of "[2, 13, 3]" "''T''" fresh_world] by fastforce
  show ?thesis
    using run_outcome_size [of "[2, 13, 3]" "sequential [2, 13, 3] ''T''" fresh_world res w' "''T''"]
      run_outcome_size [of "[]" "[(0, ''T'')]" fresh_world "[]" fresh_world "''T''"]
    by (simp add: r small_within_limit)
qed

text \<open>
  The batch that holds the one item \<open>10 ^ 4300\<close>, which 13 does not divide: \<^verbatim>\<open>process\<close>
  raises the conversion error, so does the handler of \<^verbatim>\<open>task\<close>, and the run returns the
  empty list.
\<close>

theorem run_outcome_size_counterexample:
  "huge_item mod 13 = 3
   \<and> length (filter (\<lambda>x. x mod 13 \<noteq> 0) [huge_item]) = 1
   \<and> fst (process huge_item) = Inl limit_error
   \<and> fst (task huge_item) = Inl limit_error
   \<and> run [huge_item] (sequential [huge_item] ''T'') fresh_world \<noteq> None
   \<and> fst (the (run [huge_item] (sequential [huge_item] ''T'') fresh_world)) = []"
  using run_huge_item [of "''T''" fresh_world]
  by (simp add: huge_item_mod_13 process_too_long task_lucky_too_long exceeds_limit_huge)

text \<open>
  C5, as the code has it. Items may repeat, and \<open>x\<close> and \<open>- x\<close> have the same square: for
  an item \<open>x\<close> of the batch that is not divisible by 13 and has at most 4300 digits, the
  value \<open>x * x\<close> is in the result as many times as the batch holds items equal to \<open>x\<close> or
  to \<open>- x\<close>, so at least once, and exactly once when no other item of the batch is \<open>x\<close>
  or \<open>- x\<close>. For any other \<open>x\<close> the value \<open>x * x\<close> is not in the result. When \<^verbatim>\<open>run\<close>
  returns is as in C2.
\<close>

theorem run_square_multiplicity:
  "(x \<in> set vals \<and> x mod 13 \<noteq> 0 \<and> \<not> exceeds_limit x \<and> run vals sched w = Some (res, w') \<longrightarrow>
      count_list res (Some (x * x)) = length (filter (\<lambda>y. y = x \<or> y = - x) vals)
      \<and> 1 \<le> count_list res (Some (x * x)))
   \<and> ((x mod 13 = 0 \<or> exceeds_limit x) \<and> run vals sched w = Some (res, w') \<longrightarrow>
      count_list res (Some (x * x)) = 0)
   \<and> (run vals sched w \<noteq> None \<longleftrightarrow>
        (\<forall>i<length vals. length (thread (vals ! i)) \<le> turns sched i))
   \<and> run vals (sequential vals now) w \<noteq> None"
proof -
  have A: "x \<in> set vals \<and> x mod 13 \<noteq> 0 \<and> \<not> exceeds_limit x \<and> run vals sched w = Some (res, w') \<longrightarrow>
      count_list res (Some (x * x)) = length (filter (\<lambda>y. y = x \<or> y = - x) vals)
      \<and> 1 \<le> count_list res (Some (x * x))"
  proof
    assume a: "x \<in> set vals \<and> x mod 13 \<noteq> 0 \<and> \<not> exceeds_limit x \<and> run vals sched w = Some (res, w')"
    then have "run vals sched w = Some (res, w')" by simp
    then have "count_list res (Some (x * x)) =
       (if x mod 13 \<noteq> 0 \<and> \<not> exceeds_limit x
        then length (filter (\<lambda>y. y = x \<or> y = - x) vals) else 0)"
      by (rule run_count_square)
    with a have c: "count_list res (Some (x * x)) = length (filter (\<lambda>y. y = x \<or> y = - x) vals)"
      by simp
    from a have "filter (\<lambda>y. y = x \<or> y = - x) vals \<noteq> []"
      by (auto simp: filter_empty_conv)
    then have "1 \<le> length (filter (\<lambda>y. y = x \<or> y = - x) vals)"
      by (cases "filter (\<lambda>y. y = x \<or> y = - x) vals") simp_all
    with c show "count_list res (Some (x * x)) = length (filter (\<lambda>y. y = x \<or> y = - x) vals)
      \<and> 1 \<le> count_list res (Some (x * x))"
      by simp
  qed
  have B: "(x mod 13 = 0 \<or> exceeds_limit x) \<and> run vals sched w = Some (res, w') \<longrightarrow>
      count_list res (Some (x * x)) = 0"
  proof
    assume b: "(x mod 13 = 0 \<or> exceeds_limit x) \<and> run vals sched w = Some (res, w')"
    then have "run vals sched w = Some (res, w')" by simp
    then have "count_list res (Some (x * x)) =
       (if x mod 13 \<noteq> 0 \<and> \<not> exceeds_limit x
        then length (filter (\<lambda>y. y = x \<or> y = - x) vals) else 0)"
      by (rule run_count_square)
    with b show "count_list res (Some (x * x)) = 0" by auto
  qed
  show ?thesis
    by (intro conjI) (rule A, rule B, rule run_returns_iff, rule run_sequential)
qed

theorem run_square_multiplicity_witness:
  "run [2, 13, 3] (sequential [2, 13, 3] ''T'') fresh_world \<noteq> None
   \<and> count_list (fst (the (run [2, 13, 3] (sequential [2, 13, 3] ''T'') fresh_world))) (Some (3 * 3)) = 1
   \<and> count_list (fst (the (run [2, 13, 3] (sequential [2, 13, 3] ''T'') fresh_world))) (Some (13 * 13)) = 0"
proof -
  obtain res w' where r: "run [2, 13, 3] (sequential [2, 13, 3] ''T'') fresh_world = Some (res, w')"
    using run_sequential [of "[2, 13, 3]" "''T''" fresh_world] by fastforce
  show ?thesis
    using run_square_multiplicity [of 3 "[2, 13, 3]" "sequential [2, 13, 3] ''T''" fresh_world res w' "''T''"]
      run_square_multiplicity [of 13 "[2, 13, 3]" "sequential [2, 13, 3] ''T''" fresh_world res w' "''T''"]
    by (simp add: r small_within_limit)
qed

text \<open>
  The batch \<^verbatim>\<open>[2, -2]\<close>: both items succeed, and the result holds 4 twice. The batch of
  the one item \<open>10 ^ 4300\<close>: the result does not hold its square.
\<close>

theorem run_square_multiplicity_counterexample:
  "2 \<in> set [2, - 2 :: int] \<and> (2::int) mod 13 \<noteq> 0
   \<and> map_option fst (run [2, - 2]
        [(0, ''T''), (0, ''T''), (0, ''T''), (1, ''T''), (1, ''T''), (1, ''T'')] fresh_world)
       = Some [Some 4, Some 4]
   \<and> count_list [Some 4, Some 4] (Some (2 * 2 :: int)) = 2
   \<and> huge_item mod 13 = 3
   \<and> run [huge_item] (sequential [huge_item] ''T'') fresh_world \<noteq> None
   \<and> fst (the (run [huge_item] (sequential [huge_item] ''T'') fresh_world)) = []"
proof -
  have "map_option fst (run [2, - 2]
        [(0, ''T''), (0, ''T''), (0, ''T''), (1, ''T''), (1, ''T''), (1, ''T'')] fresh_world)
       = Some [Some 4, Some 4]"
    by (simp add: run_def start_def thread_def task_lucky small_within_limit step_def joined_def
        Logger_def SingletonMeta_call_def fresh_world_def Logger_init_def Logger_log_def)
  then show ?thesis
    using run_huge_item [of "''T''" fresh_world] huge_item_mod_13 by simp
qed

text \<open>
  C6, as the code has it. \<open>process\<close> raises for an item divisible by 13 and for an item
  of more than 4300 digits, in both cases after two recorded attempts, and the handler of
  \<open>task\<close> catches it. For an item of at most 4300 digits the handler logs
  \<^verbatim>\<open>Failed processing <val>: <cause>\<close> and \<open>task\<close> returns. For a longer item the handler
  cannot build its message: nothing is logged, the conversion error leaves \<open>task\<close>, and
  the thread ends with it. In all cases the thread appends nothing, so the item is only
  absent from the result, which holds the squares of the other items. An exception that
  ends a thread does not reach \<^verbatim>\<open>run\<close>: \<open>run\<close> has returned exactly when every thread has
  been given as many steps as it has actions, which is when each has finished, and the
  schedule that runs them in turn does so.
\<close>

theorem run_never_raises:
  "fst (task val) = (if exceeds_limit val then Inl limit_error else Inr ())
   \<and> (fst (process val) = Inl e \<longrightarrow>
        (val mod 13 = 0 \<and> e = ValueError ''Unlucky number!''
         \<or> val mod 13 \<noteq> 0 \<and> exceeds_limit val \<and> e = limit_error)
        \<and> length (filter is_attempt_record (snd (process val))) = 2
        \<and> thread val = snd (process val) @
             (if exceeds_limit val then [Uncaught limit_error]
              else [LogCall (''Failed processing '' @ decimal val @ '': '' @ str_exn e)])
        \<and> appends (thread val) = [])
   \<and> (run vals sched w = Some (res, w') \<longrightarrow>
        mset res = mset (map (\<lambda>x. Some (x ^ 2))
          (filter (\<lambda>x. x mod 13 \<noteq> 0 \<and> \<not> exceeds_limit x) vals)))
   \<and> (run vals sched w \<noteq> None \<longleftrightarrow>
        (\<forall>i<length vals. length (thread (vals ! i)) \<le> turns sched i))
   \<and> run vals (sequential vals now) w \<noteq> None"
proof -
  have A: "fst (process val) = Inl e \<longrightarrow>
        (val mod 13 = 0 \<and> e = ValueError ''Unlucky number!''
         \<or> val mod 13 \<noteq> 0 \<and> exceeds_limit val \<and> e = limit_error)
        \<and> length (filter is_attempt_record (snd (process val))) = 2
        \<and> thread val = snd (process val) @
             (if exceeds_limit val then [Uncaught limit_error]
              else [LogCall (''Failed processing '' @ decimal val @ '': '' @ str_exn e)])
        \<and> appends (thread val) = []"
  proof
    assume f: "fst (process val) = Inl e"
    show "(val mod 13 = 0 \<and> e = ValueError ''Unlucky number!''
         \<or> val mod 13 \<noteq> 0 \<and> exceeds_limit val \<and> e = limit_error)
        \<and> length (filter is_attempt_record (snd (process val))) = 2
        \<and> thread val = snd (process val) @
             (if exceeds_limit val then [Uncaught limit_error]
              else [LogCall (''Failed processing '' @ decimal val @ '': '' @ str_exn e)])
        \<and> appends (thread val) = []"
    proof (cases "val mod 13 = 0")
      case True
      with f have e: "e = ValueError ''Unlucky number!''"
        by (simp add: process_unlucky)
      show ?thesis
        by (cases "exceeds_limit val")
           (simp_all add: e True process_unlucky thread_def task_unlucky task_unlucky_too_long)
    next
      case False
      show ?thesis
      proof (cases "exceeds_limit val")
        case True
        with f False have e: "e = limit_error" by (simp add: process_too_long)
        show ?thesis
          by (simp add: e True False process_too_long thread_def task_lucky_too_long
              take_attempt_failed)
      next
        case ok: False
        with f False show ?thesis by (simp add: process_lucky)
      qed
    qed
  qed
  have B: "run vals sched w = Some (res, w') \<longrightarrow>
        mset res = mset (map (\<lambda>x. Some (x ^ 2))
          (filter (\<lambda>x. x mod 13 \<noteq> 0 \<and> \<not> exceeds_limit x) vals))"
    by (rule impI) (rule run_results_mset)
  show ?thesis
    by (intro conjI) (rule task_outcome, rule A, rule B, rule run_returns_iff, rule run_sequential)
qed

theorem run_never_raises_witness:
  "fst (task 13) = Inr ()
   \<and> fst (process 13) = Inl (ValueError ''Unlucky number!'')
   \<and> thread 13 = snd (process 13) @ [LogCall ''Failed processing 13: Unlucky number!'']
   \<and> appends (thread 13) = []
   \<and> run [13, 2] (sequential [13, 2] ''T'') fresh_world \<noteq> None
   \<and> mset (fst (the (run [13, 2] (sequential [13, 2] ''T'') fresh_world))) = {#Some 4#}"
proof -
  obtain res w' where r: "run [13, 2] (sequential [13, 2] ''T'') fresh_world = Some (res, w')"
    using run_sequential [of "[13, 2]" "''T''" fresh_world] by fastforce
  have p: "fst (process 13) = Inl (ValueError ''Unlucky number!'')"
    by (simp add: process_unlucky)
  show ?thesis
    using run_never_raises [of 13 "ValueError ''Unlucky number!''" "[13, 2]"
        "sequential [13, 2] ''T''" fresh_world res w' "''T''"] p
    by (simp add: r decimal_13 process_unlucky small_within_limit)
qed

text \<open>
  The item \<open>13 * 10 ^ 4300\<close>: \<^verbatim>\<open>process\<close> raises \<^verbatim>\<open>ValueError("Unlucky number!")\<close> after
  its two attempts, the handler of \<^verbatim>\<open>task\<close> raises the conversion error, and no
  \<^verbatim>\<open>Failed processing\<close> record is written.
\<close>

theorem run_never_raises_counterexample:
  "(13 * huge_item) mod 13 = 0
   \<and> process (13 * huge_item) =
       (Inl (ValueError ''Unlucky number!''),
        [LogCall ''Attempt 1 failed: Unlucky number!'', Sleep 1000,
         LogCall ''Attempt 2 failed: Unlucky number!''])
   \<and> task (13 * huge_item) = (Inl limit_error, snd (process (13 * huge_item)))
   \<and> thread (13 * huge_item) = snd (process (13 * huge_item)) @ [Uncaught limit_error]"
proof -
  have u: "(13 * huge_item) mod 13 = 0" by simp
  have x: "exceeds_limit (13 * huge_item)" by (rule exceeds_limit_multiple) simp
  show ?thesis
    by (simp add: process_unlucky [OF u] task_unlucky_too_long [OF u x] thread_def)
qed

section \<open>Properties of the logger\<close>

text \<open>
  C7, as the code has it. A call of \<^verbatim>\<open>log\<close> appends to the file of the logger, and to no
  other file, the text \<^verbatim>\<open><timestamp>: <message>\<close> followed by one newline, where the
  timestamp is the clock text read by the call. This text is exactly one
  newline-terminated line when neither the timestamp nor the message holds a newline;
  the call writes the message as it is.
\<close>

theorem log_appends_line:
  "files (Logger_log self now message w) (filepath (heap w ! self))
     = files w (filepath (heap w ! self)) @ now @ '': '' @ message @ [newline]
   \<and> (p \<noteq> filepath (heap w ! self) \<longrightarrow> files (Logger_log self now message w) p = files w p)
   \<and> (newline \<notin> set now \<and> newline \<notin> set message \<longrightarrow>
        one_line (now @ '': '' @ message @ [newline]))"
  using one_line_log_line [of now message]
  by (simp add: Logger_log_files log_line_def)

theorem log_appends_line_witness:
  "files (Logger_log 0 ''Wed Nov  4 21:07:00 2026'' ''Processed: 5'' (snd (Logger None fresh_world)))
     ''app.log'' = ''Wed Nov  4 21:07:00 2026: Processed: 5'' @ [newline]
   \<and> files (Logger_log 0 ''Wed Nov  4 21:07:00 2026'' ''Processed: 5'' (snd (Logger None fresh_world)))
     ''other.log'' = []
   \<and> one_line (''Wed Nov  4 21:07:00 2026: Processed: 5'' @ [newline])"
  using log_appends_line [of 0 "''Wed Nov  4 21:07:00 2026''" "''Processed: 5''"
      "snd (Logger None fresh_world)" "''other.log''"]
  by (simp add: Logger_fresh newline_def)

text \<open>
  A message of two lines, \<^verbatim>\<open>"a\nb"\<close>, logged to a fresh \<^verbatim>\<open>app.log\<close>: the text written
  holds two newlines, and is not one line.
\<close>

theorem log_appends_line_counterexample:
  "files (Logger_log 0 ''T'' (''a'' @ [newline] @ ''b'') (snd (Logger None fresh_world))) ''app.log''
     = ''T: a'' @ [newline] @ ''b'' @ [newline]
   \<and> count_list (''T: a'' @ [newline] @ ''b'' @ [newline]) newline = 2
   \<and> \<not> one_line (''T: a'' @ [newline] @ ''b'' @ [newline])"
  by (simp add: Logger_fresh Logger_log_files log_line_def one_line_def newline_def)

text \<open>
  C10. Once a first call has constructed the logger, from any argument \<open>first\<close>, every
  later construction call, whatever its argument, returns the same reference and leaves
  the world as it is, after any number of such calls; the file path of the instance is
  still the one of the first call, and a record logged through the instance that a later
  call returns is appended to that file.
\<close>

theorem logger_singleton:
  assumes "instances w ''Logger'' = None" and "Logger first w = (r, w1)"
  shows "Logger arg w1 = (r, w1)
       \<and> fold (\<lambda>a v. snd (Logger a v)) args w1 = w1
       \<and> filepath (heap w1 ! r) = (case first of None \<Rightarrow> ''app.log'' | Some fp \<Rightarrow> fp)
       \<and> files (Logger_log (fst (Logger arg w1)) now message (snd (Logger arg w1)))
            (case first of None \<Rightarrow> ''app.log'' | Some fp \<Rightarrow> fp)
           = files w1 (case first of None \<Rightarrow> ''app.log'' | Some fp \<Rightarrow> fp) @ log_line now message"
proof -
  note f = Logger_first [OF assms]
  have again: "Logger arg w1 = (r, w1)" using f(1) by (rule Logger_again)
  have fp: "filepath (heap w1 ! r) = (case first of None \<Rightarrow> ''app.log'' | Some fp \<Rightarrow> fp)"
    by (simp add: f(2) Logger_init_def)
  show ?thesis
    by (simp add: again fold_Logger_again [OF f(1)] fp Logger_log_files)
qed

theorem logger_singleton_witness:
  "Logger (Some ''b.log'') (snd (Logger (Some ''a.log'') fresh_world))
     = (0, snd (Logger (Some ''a.log'') fresh_world))
   \<and> files (Logger_log (fst (Logger (Some ''b.log'') (snd (Logger (Some ''a.log'') fresh_world))))
        ''T'' ''hello'' (snd (Logger (Some ''b.log'') (snd (Logger (Some ''a.log'') fresh_world)))))
        ''a.log'' = ''T: hello'' @ [newline]
   \<and> files (Logger_log (fst (Logger (Some ''b.log'') (snd (Logger (Some ''a.log'') fresh_world))))
        ''T'' ''hello'' (snd (Logger (Some ''b.log'') (snd (Logger (Some ''a.log'') fresh_world)))))
        ''b.log'' = []"
proof -
  have n: "instances fresh_world ''Logger'' = None" by (simp add: fresh_world_def)
  have l: "Logger (Some ''a.log'') fresh_world = (0, snd (Logger (Some ''a.log'') fresh_world))"
    by (simp add: Logger_def SingletonMeta_call_def fresh_world_def)
  have fs: "files (snd (Logger (Some ''a.log'') fresh_world)) = (\<lambda>_. [])"
    using Logger_first(3) [OF n l] by (simp add: fresh_world_def)
  show ?thesis
    using logger_singleton [OF n l, of "Some ''b.log''" "[]" "''T''" "''hello''"]
    by (simp add: fs log_line_def Logger_log_files)
qed

end
